theory Spec2Isabelle
  imports Main
begin

section \<open>The continuous-serving supervisor (continuous.go)\<close>

text \<open>
  The supervisor \<open>Cont\<close> keeps a list of registered servers listening across
  stop, toggle and upgrade signals. The controller goroutine of \<open>Serve\<close> is
  sequential, so it is embedded as state passing over the \<open>Cont\<close> struct and a
  \<open>World\<close> that holds what lies outside the struct: the file system (for the PID
  file) and the trace of calls the controller makes, in program order.

  The results of calls into the operating system, the gracenet package and the
  supervised servers are not decided by this code. They are read from an \<open>Env\<close>
  record; each delivered signal carries the \<open>Env\<close> that answers the calls made
  while that signal is handled. Calls made once per registration are answered
  by position in \<open>servers\<close>.
\<close>

subsection \<open>Data model\<close>

type_synonym error = string

text \<open>\<open>ContState\<close> is an \<open>int\<close> with three constants numbered by \<open>iota\<close>.\<close>

type_synonym ContState = int

definition Running :: ContState where "Running = 0"
definition Ready :: ContState where "Ready = 1"
definition Stopped :: ContState where "Stopped = 2"

definition ContState_String :: "ContState \<Rightarrow> string" where
  "ContState_String cs =
     (if cs = Running then ''running''
      else if cs = Stopped then ''stopped''
      else if cs = Ready then ''ready''
      else '''')"

text \<open>
  A Go channel that is only ever made and closed: \<open>close\<close> panics on a nil and on
  a closed channel, and a receive in a \<open>select\<close> with \<open>default\<close> is ready only
  on a closed one.
\<close>

datatype chan = ChanNil | ChanOpen | ChanClosed

type_synonym Logger = nat

record ListenOn =
  Network :: string
  Address :: string

text \<open>
  A listener is named by a handle. The server \<open>srv\<close> is a handle too;
  \<open>AddServer\<close> is taken to be called with a non-nil server and endpoint. The
  \<open>lis\<close> slot is nil until \<open>serve\<close> fills it.
\<close>

record ContServer =
  lis :: "nat option"
  srv :: nat
  listenOn :: ListenOn

text \<open>
  \<open>net\<close> is gracenet's list of the listeners it has handed out. \<open>wg\<close> is the
  WaitGroup, kept as the set of registrations (positions in \<open>servers\<close>) whose accept
  loop has been added and has not yet called \<open>Done\<close>; \<open>Wait\<close> returns when it is
  empty.
\<close>

record Cont =
  net :: "nat list"
  name :: string
  pid :: int
  child :: int
  pidfile :: string
  cwd :: string
  logger :: "Logger option"
  servers :: "ContServer list"
  state :: ContState
  wg :: "nat set"
  doneChan :: chan

datatype Level = DebugLevel | InfoLevel | WarnLevel | ErrorLevel

datatype event =
    EvLog Level string "error option"
  | EvWriteFile string string
  | EvRename string string
  | EvMakeDone
  | EvCloseDone
  | EvListen string string
  | EvGo nat nat
  | EvLisClose nat
  | EvStop nat
  | EvGracefulStop nat
  | EvWgWait
  | EvStartProcess "nat list"
  | EvFindProcess int
  | EvWait "int option"

record World =
  fs :: "string \<rightharpoonup> string"
  trace :: "event list"

text \<open>
  What \<open>p.Wait()\<close> does: it blocks until the process has exited, so it need not
  return while that process lives; when it returns it gives an error or none.
\<close>

datatype wait_outcome = WaitBlocks | WaitReturns "error option"

record Env =
  write_res :: "error option"
  rename_res :: "error option"
  listen_res :: "nat \<Rightarrow> error + nat"
  close_res :: "nat \<Rightarrow> error option"
  serve_res :: "nat \<Rightarrow> error option"
  stop_res :: "nat \<Rightarrow> error option"
  gstop_res :: "nat \<Rightarrow> error option"
  start_res :: "error + int"
  find_res :: "error option"
  wait_res :: wait_outcome

text \<open>What \<open>New\<close> reads from the process: \<open>os.Args[0]\<close>, \<open>os.Getwd()\<close> (the empty
  string when it fails, the error being dropped), \<open>os.Getpid()\<close> and the result of
  \<open>logbunny.New\<close>.\<close>

record OsEnv =
  args0 :: string
  getwd :: string
  getpid :: int
  logger_new :: "error + Logger"

datatype Signal = SIGTERM | SIGUSR2 | SIGUSR1 | SIGHUP | SIGQUIT | SIGCHLD

text \<open>
  How a run of the controller ends: \<open>Waiting\<close> on the signal channel with no
  signal left to read, \<open>Returned\<close> from \<open>Serve\<close>, \<open>Panicked\<close>, or \<open>Blocked\<close>
  in a \<open>wg.Wait()\<close> or a \<open>p.Wait()\<close> that does not return.
\<close>

datatype outcome =
    is_Waiting: Waiting (oc: Cont) (ow: World)
  | is_Returned: Returned (oerr: "error option") (oc: Cont) (ow: World)
  | is_Panicked: Panicked (oc: Cont) (ow: World)
  | is_Blocked: Blocked (oc: Cont) (ow: World)

datatype 'a result =
    is_Ok: Ok 'a (rc: Cont) (rw: World)
  | is_Panic: Panic (rc: Cont) (rw: World)

subsection \<open>Logging and the file system\<close>

definition emit :: "event \<Rightarrow> World \<Rightarrow> World" where
  "emit e w = w\<lparr>trace := trace w @ [e]\<rparr>"

definition logmsg :: "Level \<Rightarrow> string \<Rightarrow> error option \<Rightarrow> World \<Rightarrow> World" where
  "logmsg l m e w = emit (EvLog l m e) w"

definition digit_char :: "nat \<Rightarrow> char" where
  "digit_char d = ''0123456789'' ! d"

function digits :: "nat \<Rightarrow> string" where
  "digits n = (if n < 10 then [digit_char n] else digits (n div 10) @ [digit_char (n mod 10)])"
  by pat_completeness auto
termination
  by (relation "measure id") auto

declare digits.simps [simp del]

text \<open>\<open>fmt.Sprint\<close> of an \<open>int\<close>: its decimal digits, with a sign when negative.\<close>

definition Sprint :: "int \<Rightarrow> string" where
  "Sprint i = (if i < 0 then CHR ''-'' # digits (nat (- i)) else digits (nat i))"

text \<open>\<open>ioutil.WriteFile\<close>: creates or truncates the file unless the system refuses.\<close>

definition WriteFile :: "Env \<Rightarrow> string \<Rightarrow> string \<Rightarrow> World \<Rightarrow> error option \<times> World" where
  "WriteFile env path content w =
     (let w1 = emit (EvWriteFile path content) w in
      case write_res env of
        Some err \<Rightarrow> (Some err, w1)
      | None \<Rightarrow> (None, w1\<lparr>fs := (fs w1)(path \<mapsto> content)\<rparr>))"

text \<open>\<open>os.Rename\<close>: fails when the system refuses or the old path does not exist;
  otherwise the new path takes the content and the old path is gone.\<close>

definition Rename :: "Env \<Rightarrow> string \<Rightarrow> string \<Rightarrow> World \<Rightarrow> error option \<times> World" where
  "Rename env oldpath newpath w =
     (let w1 = emit (EvRename oldpath newpath) w in
      case rename_res env of
        Some err \<Rightarrow> (Some err, w1)
      | None \<Rightarrow>
          (case fs w1 oldpath of
             None \<Rightarrow> (Some ''no such file or directory'', w1)
           | Some content \<Rightarrow>
               (None, w1\<lparr>fs := ((fs w1)(oldpath := None))(newpath \<mapsto> content)\<rparr>)))"

subsection \<open>Construction\<close>

text \<open>An \<open>Option\<close> is a closure over the \<open>Cont\<close>; the package exports four ways to
  build one.\<close>

datatype Option = ProcName string | WorkDir string | UseLogger Logger | PidFile string

fun apply_option :: "Option \<Rightarrow> Cont \<Rightarrow> Cont" where
  "apply_option (ProcName n) cont = cont\<lparr>name := n\<rparr>"
| "apply_option (WorkDir path) cont = cont\<lparr>cwd := path\<rparr>"
| "apply_option (UseLogger l) cont = cont\<lparr>logger := Some l\<rparr>"
| "apply_option (PidFile filename) cont = cont\<lparr>pidfile := filename\<rparr>"

text \<open>The zero value of the struct.\<close>

definition zero_Cont :: Cont where
  "zero_Cont =
     \<lparr>net = [], name = [], pid = 0, child = 0, pidfile = [], cwd = [], logger = None,
      servers = [], state = 0, wg = {}, doneChan = ChanNil\<rparr>"

text \<open>\<open>New\<close>; \<open>Inl code\<close> is \<open>os.Exit(code)\<close>.\<close>

definition New :: "Option list \<Rightarrow> OsEnv \<Rightarrow> int + Cont" where
  "New opts os =
     (let cont = zero_Cont\<lparr>name := args0 os, cwd := getwd os, pid := getpid os\<rparr>;
          cont = fold apply_option opts cont;
          cont = (if pidfile cont = [] then cont\<lparr>pidfile := cwd cont @ ''/'' @ name cont @ ''.pid''\<rparr>
                  else cont)
      in if logger cont = None then
           (case logger_new os of
              Inl err \<Rightarrow> Inl (- 1)
            | Inr l \<Rightarrow> Inr (cont\<lparr>logger := Some l\<rparr>))
         else Inr cont)"

definition AddServer :: "nat \<Rightarrow> ListenOn \<Rightarrow> Cont \<Rightarrow> Cont" where
  "AddServer s lo cont = cont\<lparr>servers := servers cont @ [\<lparr>lis = None, srv = s, listenOn = lo\<rparr>]\<rparr>"

definition Status :: "Cont \<Rightarrow> ContState" where
  "Status cont = state cont"

definition writePid :: "Env \<Rightarrow> Cont \<Rightarrow> World \<Rightarrow> error option \<times> World" where
  "writePid env cont w = WriteFile env (pidfile cont) (Sprint (pid cont)) w"

subsection \<open>Starting the servers\<close>

text \<open>
  The body of the goroutine once \<open>srv.Serve\<close> has returned \<open>r\<close> for registration
  \<open>i\<close>: the error is logged unless \<open>doneChan\<close> is closed, then \<open>wg.Done()\<close>.
\<close>

definition accept_loop_exit :: "nat \<Rightarrow> error option \<Rightarrow> Cont \<Rightarrow> World \<Rightarrow> Cont \<times> World" where
  "accept_loop_exit i r cont w =
     (let w1 = (case r of
                  None \<Rightarrow> w
                | Some err \<Rightarrow>
                    (let done = (doneChan cont = ChanClosed) in
                     if \<not> done then logmsg ErrorLevel ''serve failed'' (Some err) w else w))
      in (cont\<lparr>wg := wg cont - {i}\<rparr>, w1))"

text \<open>The loop of \<open>serve\<close> from registration \<open>i\<close> on: bind, install the listener,
  add to the WaitGroup and launch the accept loop; the first bind error returns.\<close>

fun serve_loop :: "Env \<Rightarrow> nat \<Rightarrow> ContServer list \<Rightarrow> Cont \<Rightarrow> World \<Rightarrow> error option \<times> Cont \<times> World" where
  "serve_loop env i [] cont w = (None, cont, w)"
| "serve_loop env i (server # rest) cont w =
     (let w1 = emit (EvListen (Network (listenOn server)) (Address (listenOn server))) w in
      case listen_res env i of
        Inl err \<Rightarrow> (Some err, cont, w1)
      | Inr l \<Rightarrow>
          (let cont1 = cont\<lparr>net := net cont @ [l],
                            servers := (servers cont)[i := server\<lparr>lis := Some l\<rparr>],
                            wg := insert i (wg cont)\<rparr>;
               w2 = emit (EvGo (srv server) l) w1
           in serve_loop env (Suc i) rest cont1 w2))"

definition serve :: "Env \<Rightarrow> Cont \<Rightarrow> World \<Rightarrow> error option \<times> Cont \<times> World" where
  "serve env cont w =
     (let cont0 = cont\<lparr>doneChan := ChanOpen\<rparr>;
          w0 = emit EvMakeDone w
      in case serve_loop env 0 (servers cont0) cont0 w0 of
           (Some err, cont1, w1) \<Rightarrow> (Some err, cont1, w1)
         | (None, cont1, w1) \<Rightarrow> (None, cont1\<lparr>state := Running\<rparr>, w1))"

subsection \<open>Stopping\<close>

text \<open>The fan-out shared by \<open>stop\<close> and \<open>gracefulStop\<close>: call each server in turn,
  return at the first error.\<close>

fun stop_each :: "(nat \<Rightarrow> error option) \<Rightarrow> (nat \<Rightarrow> event) \<Rightarrow> nat \<Rightarrow> ContServer list \<Rightarrow> World
    \<Rightarrow> error option \<times> World" where
  "stop_each res ev i [] w = (None, w)"
| "stop_each res ev i (server # rest) w =
     (let w1 = emit (ev (srv server)) w in
      case res i of
        Some err \<Rightarrow> (Some err, w1)
      | None \<Rightarrow> stop_each res ev (Suc i) rest w1)"

definition stop :: "Env \<Rightarrow> Cont \<Rightarrow> World \<Rightarrow> (error option) result" where
  "stop env cont w =
     (if doneChan cont \<noteq> ChanOpen then Panic cont w
      else
        (let cont1 = cont\<lparr>doneChan := ChanClosed\<rparr>;
             w1 = emit EvCloseDone w
         in case stop_each (stop_res env) EvStop 0 (servers cont1) w1 of
              (Some err, w2) \<Rightarrow> Ok (Some err) cont1 w2
            | (None, w2) \<Rightarrow> Ok None (cont1\<lparr>state := Stopped\<rparr>) w2))"

definition gracefulStop :: "Env \<Rightarrow> Cont \<Rightarrow> World \<Rightarrow> (error option) result" where
  "gracefulStop env cont w =
     (if doneChan cont \<noteq> ChanOpen then Panic cont w
      else
        (let cont1 = cont\<lparr>doneChan := ChanClosed\<rparr>;
             w1 = emit EvCloseDone w
         in case stop_each (gstop_res env) EvGracefulStop 0 (servers cont1) w1 of
              (Some err, w2) \<Rightarrow> Ok (Some err) cont1 w2
            | (None, w2) \<Rightarrow> Ok None (cont1\<lparr>state := Stopped\<rparr>) w2))"

text \<open>
  The loop of \<open>closeListeners\<close>. Closing a nil listener panics. Once the
  listener of registration \<open>i\<close> is closed its accept loop, if one is running,
  sees the accept error and runs its exit code.
\<close>

fun close_loop :: "Env \<Rightarrow> nat \<Rightarrow> ContServer list \<Rightarrow> Cont \<Rightarrow> World \<Rightarrow> unit result" where
  "close_loop env i [] cont w = Ok () cont w"
| "close_loop env i (server # rest) cont w =
     (case lis server of
        None \<Rightarrow> Panic cont w
      | Some l \<Rightarrow>
          (let w1 = emit (EvLisClose l) w;
               w2 = (case close_res env i of
                       None \<Rightarrow> w1
                     | Some err \<Rightarrow> logmsg ErrorLevel ''close listener failed'' (Some err) w1);
               (cont3, w3) = (if i \<in> wg cont then accept_loop_exit i (serve_res env i) cont w2
                              else (cont, w2))
           in close_loop env (Suc i) rest cont3 w3))"

definition closeListeners :: "Env \<Rightarrow> Cont \<Rightarrow> World \<Rightarrow> unit result" where
  "closeListeners env cont w =
     (if doneChan cont \<noteq> ChanOpen then Panic cont w
      else
        (case close_loop env 0 (servers cont) (cont\<lparr>doneChan := ChanClosed\<rparr>) (emit EvCloseDone w) of
           Panic cont1 w1 \<Rightarrow> Panic cont1 w1
         | Ok u cont1 w1 \<Rightarrow> Ok () (cont1\<lparr>net := []\<rparr>) w1))"

subsection \<open>Upgrade\<close>

definition upgrade :: "Env \<Rightarrow> Cont \<Rightarrow> World \<Rightarrow> error option \<times> Cont \<times> World" where
  "upgrade env cont w =
     (let (r, w1) = Rename env (pidfile cont) (pidfile cont @ ''.old'') w;
          w2 = (case r of
                  Some err \<Rightarrow> logmsg WarnLevel ''rename pid file failed'' (Some err) w1
                | None \<Rightarrow> w1);
          w3 = emit (EvStartProcess (net cont)) w2
      in case start_res env of
           Inl err \<Rightarrow> (Some err, cont, w3)
         | Inr p \<Rightarrow> (None, cont\<lparr>child := p\<rparr>, logmsg InfoLevel ''new process started'' None w3))"

subsection \<open>The signal loop of Serve\<close>

text \<open>
  One turn of the \<open>switch\<close>. \<open>wg.Wait()\<close> returns when no accept loop is left
  and blocks otherwise. On SIGCHLD, \<open>FindProcess\<close> yields a nil process when it
  fails; the error is logged and \<open>Wait\<close> is still called, on nil, which panics.
  Otherwise \<open>Wait\<close> is called on the process with the pid \<open>child\<close>, and the
  rename of the PID file comes only once it has returned.
\<close>

fun handle :: "Env \<Rightarrow> Signal \<Rightarrow> Cont \<Rightarrow> World \<Rightarrow> outcome" where
  "handle env SIGTERM cont w =
     (case stop env cont w of
        Panic cont1 w1 \<Rightarrow> Panicked cont1 w1
      | Ok r cont1 w1 \<Rightarrow> Returned None cont1 w1)"
| "handle env SIGQUIT cont w =
     (case gracefulStop env cont w of
        Panic cont1 w1 \<Rightarrow> Panicked cont1 w1
      | Ok r cont1 w1 \<Rightarrow> Returned None cont1 w1)"
| "handle env SIGUSR1 cont w =
     (if state cont = Running then
        (case closeListeners env (cont\<lparr>state := Ready\<rparr>) w of
           Panic cont1 w1 \<Rightarrow> Panicked cont1 w1
         | Ok u cont1 w1 \<Rightarrow> Waiting cont1 w1)
      else if state cont = Ready then
        (let w0 = emit EvWgWait w in
         if wg cont \<noteq> {} then Blocked cont w0
         else (case serve env cont w0 of
                 (r, cont1, w1) \<Rightarrow> Waiting (cont1\<lparr>state := Running\<rparr>) w1))
      else Waiting cont w)"
| "handle env SIGUSR2 cont w =
     (case upgrade env cont w of
        (Some err, cont1, w1) \<Rightarrow> Waiting cont1 (logmsg ErrorLevel ''upgrade binary failed'' (Some err) w1)
      | (None, cont1, w1) \<Rightarrow> Waiting cont1 w1)"
| "handle env SIGHUP cont w =
     (case upgrade env cont w of
        (Some err, cont1, w1) \<Rightarrow> Waiting cont1 (logmsg ErrorLevel ''upgrade binary failed'' (Some err) w1)
      | (None, cont1, w1) \<Rightarrow>
          (case gracefulStop env cont1 w1 of
             Panic cont2 w2 \<Rightarrow> Panicked cont2 w2
           | Ok (Some err) cont2 w2 \<Rightarrow>
               Waiting cont2 (logmsg ErrorLevel ''upgrade binary failed'' (Some err) w2)
           | Ok None cont2 w2 \<Rightarrow> Returned None cont2 w2))"
| "handle env SIGCHLD cont w =
     (let w1 = emit (EvFindProcess (child cont)) w in
      case find_res env of
        Some err \<Rightarrow>
          Panicked cont (emit (EvWait None) (logmsg ErrorLevel ''find process failed'' (Some err) w1))
      | None \<Rightarrow>
          (let w3 = emit (EvWait (Some (child cont))) w1 in
           case wait_res env of
             WaitBlocks \<Rightarrow> Blocked cont w3
           | WaitReturns r \<Rightarrow>
               (let w4 = (case r of
                            Some err \<Rightarrow>
                              logmsg ErrorLevel ''wait child process to exit failed'' (Some err) w3
                          | None \<Rightarrow> logmsg InfoLevel ''child exited'' None w3);
                    (r2, w5) = Rename env (pidfile cont @ ''.old'') (pidfile cont) w4;
                    w6 = (case r2 of
                            Some err \<Rightarrow> logmsg ErrorLevel ''recover pid file failed'' (Some err) w5
                          | None \<Rightarrow> w5)
                in Waiting cont w6)))"

text \<open>The \<open>for\<close> loop over the signals received, each with the \<open>Env\<close> that answers
  the calls of its handler.\<close>

fun signal_loop :: "(Env \<times> Signal) list \<Rightarrow> Cont \<Rightarrow> World \<Rightarrow> outcome" where
  "signal_loop [] cont w = Waiting cont w"
| "signal_loop ((env, sig) # rest) cont w =
     (case handle env sig cont (logmsg InfoLevel ''got signal'' None w) of
        Waiting cont1 w1 \<Rightarrow> signal_loop rest cont1 w1
      | Returned r cont1 w1 \<Rightarrow> Returned r cont1 w1
      | Panicked cont1 w1 \<Rightarrow> Panicked cont1 w1
      | Blocked cont1 w1 \<Rightarrow> Blocked cont1 w1)"

text \<open>\<open>Serve\<close>: write the PID file, run the first pass of \<open>serve\<close> (its result is
  not looked at), then handle signals.\<close>

definition Serve :: "Env \<Rightarrow> (Env \<times> Signal) list \<Rightarrow> Cont \<Rightarrow> World \<Rightarrow> outcome" where
  "Serve env sigs cont w =
     (let w0 = logmsg DebugLevel ''continuous serving'' None w in
      case writePid env cont w0 of
        (Some err, w1) \<Rightarrow> Returned (Some err) cont w1
      | (None, w1) \<Rightarrow>
          (case serve env cont w1 of
             (r, cont2, w2) \<Rightarrow>
               signal_loop sigs cont2 (logmsg DebugLevel ''waiting for signals'' None w2)))"

subsection \<open>Observations on traces\<close>

text \<open>The calls in a trace, without the log lines.\<close>

fun is_log :: "event \<Rightarrow> bool" where
  "is_log (EvLog l m e) = True"
| "is_log ev = False"

definition calls :: "event list \<Rightarrow> event list" where
  "calls evs = filter (\<lambda>ev. \<not> is_log ev) evs"

text \<open>The events that take a listener down: closing it, or stopping the server
  that accepts on it.\<close>

fun is_teardown :: "event \<Rightarrow> bool" where
  "is_teardown (EvLisClose l) = True"
| "is_teardown (EvStop s) = True"
| "is_teardown (EvGracefulStop s) = True"
| "is_teardown ev = False"

text \<open>
  \<open>closes_after_done d evs\<close>: reading \<open>evs\<close> from the left, with \<open>d\<close> telling
  whether the current done channel is already closed, every teardown event comes
  after the close of the done channel that is current at that point.
\<close>

fun closes_after_done :: "bool \<Rightarrow> event list \<Rightarrow> bool" where
  "closes_after_done d [] = True"
| "closes_after_done d (ev # evs) =
     (if ev = EvCloseDone then closes_after_done True evs
      else if ev = EvMakeDone then closes_after_done False evs
      else if is_teardown ev then d \<and> closes_after_done d evs
      else closes_after_done d evs)"

subsection \<open>The state the specification expects after a toggle or an upgrade\<close>

text \<open>
  Written from the specification's sentence, for comparison with the code: USR1
  alternates between \<open>Running\<close> and \<open>Ready\<close>, any other signal of the sequence
  leaves the state as it is.
\<close>

fun spec_step :: "ContState \<Rightarrow> Signal \<Rightarrow> ContState" where
  "spec_step s SIGUSR1 = (if s = Running then Ready else Running)"
| "spec_step s sig = s"

text \<open>Written from the specification's words \<open>executable basename\<close>: what follows
  the last slash of the path.\<close>

definition basename_spec :: "string \<Rightarrow> string" where
  "basename_spec path = rev (takeWhile (\<lambda>ch. ch \<noteq> CHR ''/'') (rev path))"

subsection \<open>A concrete supervisor\<close>

text \<open>An environment in which every call succeeds; the accept loops end with the
  error of a closed listener.\<close>

definition env_ok :: Env where
  "env_ok =
     \<lparr>write_res = None, rename_res = None, listen_res = (\<lambda>i. Inr (100 + i)),
      close_res = (\<lambda>i. None), serve_res = (\<lambda>i. Some ''use of closed network connection''),
      stop_res = (\<lambda>i. None), gstop_res = (\<lambda>i. None), start_res = Inr 4343,
      find_res = None, wait_res = WaitReturns None\<rparr>"

definition env_bind_fails :: Env where
  "env_bind_fails = env_ok\<lparr>listen_res := (\<lambda>i. Inl ''address already in use'')\<rparr>"

text \<open>The process waited on is still alive.\<close>

definition env_wait_blocks :: Env where
  "env_wait_blocks = env_ok\<lparr>wait_res := WaitBlocks\<rparr>"

definition env_exec_fails :: Env where
  "env_exec_fails = env_ok\<lparr>start_res := Inl ''no such file or directory''\<rparr>"

definition os_example :: OsEnv where
  "os_example = \<lparr>args0 = ''./bin/server'', getwd = ''/srv/app'', getpid = 4242, logger_new = Inr 7\<rparr>"

definition world_empty :: World where
  "world_empty = \<lparr>fs = Map.empty, trace = []\<rparr>"

text \<open>What \<open>New()\<close> yields under \<open>os_example\<close>, and the same with two servers
  registered.\<close>

definition cont_new :: Cont where
  "cont_new =
     \<lparr>net = [], name = ''./bin/server'', pid = 4242, child = 0,
      pidfile = ''/srv/app/./bin/server.pid'', cwd = ''/srv/app'', logger = Some 7,
      servers = [], state = 0, wg = {}, doneChan = ChanNil\<rparr>"

definition cont_two :: Cont where
  "cont_two =
     AddServer 2 \<lparr>Network = ''tcp'', Address = '':50051''\<rparr>
       (AddServer 1 \<lparr>Network = ''tcp'', Address = '':8000''\<rparr> cont_new)"

text \<open>The same supervisor in the middle of an episode: both listeners bound, the
  done channel open.\<close>

definition cont_running :: Cont where
  "cont_running =
     cont_new\<lparr>net := [100, 101],
              servers := [\<lparr>lis = Some 100, srv = 1, listenOn = \<lparr>Network = ''tcp'', Address = '':8000''\<rparr>\<rparr>,
                          \<lparr>lis = Some 101, srv = 2, listenOn = \<lparr>Network = ''tcp'', Address = '':50051''\<rparr>\<rparr>],
              wg := {0, 1}, doneChan := ChanOpen\<rparr>"

subsection \<open>Auxiliary notions for the proofs\<close>

text \<open>
  What holds between toggles: every registration has a listener installed, the
  accept loops counted by the WaitGroup belong to registrations, and either the
  supervisor is \<open>Running\<close> with an open done channel, or it is \<open>Ready\<close> with the
  done channel closed and no accept loop left.
\<close>

definition toggle_inv :: "Cont \<Rightarrow> bool" where
  "toggle_inv cont \<longleftrightarrow>
     list_all (\<lambda>s. lis s \<noteq> None) (servers cont) \<and>
     wg cont \<subseteq> {..<length (servers cont)} \<and>
     (state cont = Running \<and> doneChan cont = ChanOpen \<or>
      state cont = Ready \<and> doneChan cont = ChanClosed \<and> wg cont = {})"

text \<open>\<open>grows P w w'\<close>: the trace of \<open>w'\<close> is that of \<open>w\<close> followed by events that
  all satisfy \<open>P\<close>.\<close>

definition grows :: "(event \<Rightarrow> bool) \<Rightarrow> World \<Rightarrow> World \<Rightarrow> bool" where
  "grows P w w' \<longleftrightarrow> (\<exists>evs. trace w' = trace w @ evs \<and> list_all P evs)"


definition cont_tuned :: Cont where
  "cont_tuned = cont_new\<lparr>name := ''echo'', pidfile := ''/run/echo.pid''\<rparr>"

section \<open>Properties\<close>

subsection \<open>Basic facts\<close>

lemma trace_emit [simp]: "trace (emit e w) = trace w @ [e]"
  by (simp add: emit_def)

lemma fs_emit [simp]: "fs (emit e w) = fs w"
  by (simp add: emit_def)

lemma trace_logmsg [simp]: "trace (logmsg l m e w) = trace w @ [EvLog l m e]"
  by (simp add: logmsg_def)

lemma fs_logmsg [simp]: "fs (logmsg l m e w) = fs w"
  by (simp add: logmsg_def)

lemma states_distinct [simp]:
  "Running \<noteq> Ready" "Ready \<noteq> Running" "Running \<noteq> Stopped" "Stopped \<noteq> Running"
  "Ready \<noteq> Stopped" "Stopped \<noteq> Ready"
  by (simp_all add: Running_def Ready_def Stopped_def)

lemma fold_apply_option_state: "state (fold apply_option opts cont) = state cont"
proof (induction opts arbitrary: cont)
  case Nil
  show ?case by simp
next
  case (Cons o1 opts)
  have "state (apply_option o1 cont) = state cont" by (cases o1) simp_all
  with Cons show ?case by simp
qed

text \<open>Unfolding a run of \<open>Serve\<close> on the concrete supervisor.\<close>

lemma Sprint_4242: "Sprint 4242 = ''4242''"
  by (simp add: Sprint_def digits.simps [of 4242] digits.simps [of 424] digits.simps [of 42]
      digits.simps [of 4] digit_char_def)

lemmas run_defs =
  Serve_def writePid_def WriteFile_def serve_def stop_def gracefulStop_def closeListeners_def
  upgrade_def Rename_def accept_loop_exit_def Let_def Status_def
  env_ok_def env_bind_fails_def env_exec_fails_def env_wait_blocks_def
  cont_two_def cont_new_def AddServer_def world_empty_def Sprint_4242

subsection \<open>The stop fan-out\<close>

lemma stop_each_all_ok:
  "(\<forall>j<length ss. res (i + j) = None) \<Longrightarrow>
     stop_each res ev i ss w = (None, w\<lparr>trace := trace w @ map (\<lambda>s. ev (srv s)) ss\<rparr>)"
proof (induction ss arbitrary: i w)
  case Nil
  show ?case by simp
next
  case (Cons s ss)
  have here: "res i = None" using Cons.prems by force
  have later: "\<forall>j<length ss. res (Suc i + j) = None"
  proof (intro allI impI)
    fix j assume "j < length ss"
    then have "Suc j < length (s # ss)" by simp
    with Cons.prems have "res (i + Suc j) = None" by blast
    then show "res (Suc i + j) = None" by simp
  qed
  show ?case using here Cons.IH [OF later] by (simp add: emit_def)
qed

lemma stop_each_first_error:
  "k < length ss \<Longrightarrow> res (i + k) = Some err \<Longrightarrow> (\<forall>j<k. res (i + j) = None) \<Longrightarrow>
     stop_each res ev i ss w =
       (Some err, w\<lparr>trace := trace w @ map (\<lambda>s. ev (srv s)) (take (Suc k) ss)\<rparr>)"
proof (induction ss arbitrary: i k w)
  case Nil
  then show ?case by simp
next
  case (Cons s ss)
  show ?case
  proof (cases k)
    case 0
    with Cons.prems show ?thesis by (simp add: emit_def)
  next
    case (Suc k')
    have here: "res i = None" using Cons.prems(3) Suc by force
    have a: "k' < length ss" using Cons.prems(1) Suc by simp
    have b: "res (Suc i + k') = Some err" using Cons.prems(2) Suc by simp
    have c: "\<forall>j<k'. res (Suc i + j) = None"
    proof (intro allI impI)
      fix j assume "j < k'"
      then have "Suc j < k" using Suc by simp
      with Cons.prems(3) have "res (i + Suc j) = None" by blast
      then show "res (Suc i + j) = None" by simp
    qed
    show ?thesis using here Suc Cons.IH [OF a b c] by (simp add: emit_def)
  qed
qed

text \<open>
  The fan-out on a live episode. With the done channel open, \<open>stop\<close> (and
  likewise \<open>gracefulStop\<close>) first closes the done channel and then calls \<open>Stop\<close>
  (\<open>GracefulStop\<close>) on the registered servers in registration order. When no
  call fails every server is called, nil is returned and the state becomes
  \<open>Stopped\<close>. When server \<open>k\<close> is the first to fail, the servers up to and
  including \<open>k\<close> are called, the later ones are skipped and that error is
  returned.
\<close>

lemma stop_fanout_live:
  assumes "doneChan cont = ChanOpen"
  shows "((\<forall>i<length (servers cont). stop_res env i = None) \<longrightarrow>
            stop env cont w =
              Ok None (cont\<lparr>doneChan := ChanClosed, state := Stopped\<rparr>)
                (w\<lparr>trace := trace w @ EvCloseDone # map (\<lambda>s. EvStop (srv s)) (servers cont)\<rparr>))
       \<and> (\<forall>k err. k < length (servers cont) \<and> stop_res env k = Some err
              \<and> (\<forall>i<k. stop_res env i = None) \<longrightarrow>
            stop env cont w =
              Ok (Some err) (cont\<lparr>doneChan := ChanClosed\<rparr>)
                (w\<lparr>trace := trace w @ EvCloseDone
                      # map (\<lambda>s. EvStop (srv s)) (take (Suc k) (servers cont))\<rparr>))
       \<and> ((\<forall>i<length (servers cont). gstop_res env i = None) \<longrightarrow>
            gracefulStop env cont w =
              Ok None (cont\<lparr>doneChan := ChanClosed, state := Stopped\<rparr>)
                (w\<lparr>trace := trace w @ EvCloseDone
                      # map (\<lambda>s. EvGracefulStop (srv s)) (servers cont)\<rparr>))
       \<and> (\<forall>k err. k < length (servers cont) \<and> gstop_res env k = Some err
              \<and> (\<forall>i<k. gstop_res env i = None) \<longrightarrow>
            gracefulStop env cont w =
              Ok (Some err) (cont\<lparr>doneChan := ChanClosed\<rparr>)
                (w\<lparr>trace := trace w @ EvCloseDone
                      # map (\<lambda>s. EvGracefulStop (srv s)) (take (Suc k) (servers cont))\<rparr>))"
proof (intro conjI allI impI)
  assume ok: "\<forall>i<length (servers cont). stop_res env i = None"
  then have "\<forall>j<length (servers cont). stop_res env (0 + j) = None" by simp
  from stop_each_all_ok [OF this] assms
  show "stop env cont w =
      Ok None (cont\<lparr>doneChan := ChanClosed, state := Stopped\<rparr>)
        (w\<lparr>trace := trace w @ EvCloseDone # map (\<lambda>s. EvStop (srv s)) (servers cont)\<rparr>)"
    by (simp add: stop_def emit_def)
next
  fix k err
  assume h: "k < length (servers cont) \<and> stop_res env k = Some err
      \<and> (\<forall>i<k. stop_res env i = None)"
  then have a: "k < length (servers cont)" and b: "stop_res env (0 + k) = Some err"
    and c: "\<forall>j<k. stop_res env (0 + j) = None" by simp_all
  from stop_each_first_error [OF a b c] assms
  show "stop env cont w =
      Ok (Some err) (cont\<lparr>doneChan := ChanClosed\<rparr>)
        (w\<lparr>trace := trace w @ EvCloseDone
              # map (\<lambda>s. EvStop (srv s)) (take (Suc k) (servers cont))\<rparr>)"
    by (simp add: stop_def emit_def)
next
  assume ok: "\<forall>i<length (servers cont). gstop_res env i = None"
  then have "\<forall>j<length (servers cont). gstop_res env (0 + j) = None" by simp
  from stop_each_all_ok [OF this] assms
  show "gracefulStop env cont w =
      Ok None (cont\<lparr>doneChan := ChanClosed, state := Stopped\<rparr>)
        (w\<lparr>trace := trace w @ EvCloseDone
              # map (\<lambda>s. EvGracefulStop (srv s)) (servers cont)\<rparr>)"
    by (simp add: gracefulStop_def emit_def)
next
  fix k err
  assume h: "k < length (servers cont) \<and> gstop_res env k = Some err
      \<and> (\<forall>i<k. gstop_res env i = None)"
  then have a: "k < length (servers cont)" and b: "gstop_res env (0 + k) = Some err"
    and c: "\<forall>j<k. gstop_res env (0 + j) = None" by simp_all
  from stop_each_first_error [OF a b c] assms
  show "gracefulStop env cont w =
      Ok (Some err) (cont\<lparr>doneChan := ChanClosed\<rparr>)
        (w\<lparr>trace := trace w @ EvCloseDone
              # map (\<lambda>s. EvGracefulStop (srv s)) (take (Suc k) (servers cont))\<rparr>)"
    by (simp add: gracefulStop_def emit_def)
qed

subsection \<open>Construction\<close>

text \<open>
  C10. A supervisor that \<open>New\<close> has just built, whatever the options, reports
  \<open>Running\<close> from \<open>Status\<close> before \<open>Serve\<close> is ever called: no option touches
  \<open>state\<close>, and the zero value of \<open>ContState\<close> is \<open>Running\<close>.
\<close>

theorem New_reports_Running: "New opts os = Inr cont \<Longrightarrow> Status cont = Running"
  by (auto simp: New_def Let_def Status_def Running_def zero_Cont_def fold_apply_option_state
      split: if_splits sum.splits)

theorem New_reports_Running_witness:
  "New [ProcName ''echo'', PidFile ''/run/echo.pid''] os_example = Inr cont_tuned
   \<and> Status cont_tuned = Running"
proof -
  have h: "New [ProcName ''echo'', PidFile ''/run/echo.pid''] os_example = Inr cont_tuned"
    by (simp add: New_def os_example_def cont_tuned_def cont_new_def zero_Cont_def)
  from New_reports_Running [OF h] h show ?thesis by simp
qed

text \<open>
  C8, as the claim states it, fails: without options the procname is
  \<open>os.Args[0]\<close> as the process was invoked, which is not its basename when the
  program was started through a path.
\<close>

theorem New_name_not_basename:
  "New [] os_example = Inr cont_new \<and> name cont_new \<noteq> basename_spec (args0 os_example)"
  by (simp add: New_def os_example_def cont_new_def zero_Cont_def basename_spec_def)

text \<open>
  C8, amended. Without options the procname is \<open>os.Args[0]\<close> unchanged, the
  working directory is what \<open>os.Getwd\<close> returned, and the PID-file path is the
  working directory, a slash, the procname and \<open>.pid\<close>.
\<close>

theorem New_defaults:
  "New [] os = Inr cont \<Longrightarrow>
     name cont = args0 os \<and> cwd cont = getwd os \<and>
     pidfile cont = getwd os @ ''/'' @ args0 os @ ''.pid''"
  by (auto simp: New_def Let_def zero_Cont_def split: if_splits sum.splits)

theorem New_defaults_witness:
  "New [] os_example = Inr cont_new
   \<and> name cont_new = ''./bin/server'' \<and> cwd cont_new = ''/srv/app''
   \<and> pidfile cont_new = ''/srv/app/./bin/server.pid''"
proof -
  have h: "New [] os_example = Inr cont_new"
    by (simp add: New_def os_example_def cont_new_def zero_Cont_def)
  from New_defaults [OF h] h show ?thesis by (simp add: os_example_def)
qed

subsection \<open>One signal\<close>




text \<open>
  C7. When starting the successor fails, on USR2 as on HUP, the handler logs the
  error and goes back to waiting for signals with the supervisor unchanged (its
  state, listeners and done channel included). The only calls made are the
  rename of the PID file and the attempt to start the process: on HUP no server
  is stopped and \<open>Serve\<close> does not return.
\<close>

theorem upgrade_failure_continues:
  assumes "start_res env = Inl err" and "sig = SIGUSR2 \<or> sig = SIGHUP"
  shows "\<exists>w'. handle env sig cont w = Waiting cont w' \<and>
           calls (trace w') =
             calls (trace w) @
               [EvRename (pidfile cont) (pidfile cont @ ''.old''), EvStartProcess (net cont)] \<and>
           last (trace w') = EvLog ErrorLevel ''upgrade binary failed'' (Some err)"
  using assms
  by (auto simp: upgrade_def Let_def Rename_def calls_def split: option.splits prod.splits)

theorem upgrade_failure_continues_witness:
  "start_res env_exec_fails = Inl ''no such file or directory''
   \<and> (\<exists>w'. handle env_exec_fails SIGHUP cont_running world_empty = Waiting cont_running w' \<and>
         calls (trace w') =
           [EvRename ''/srv/app/./bin/server.pid'' ''/srv/app/./bin/server.pid.old'',
            EvStartProcess [100, 101]] \<and>
         last (trace w') =
           EvLog ErrorLevel ''upgrade binary failed'' (Some ''no such file or directory''))
   \<and> state cont_running = Running"
proof -
  have h: "start_res env_exec_fails = Inl ''no such file or directory''"
    by (simp add: env_exec_fails_def env_ok_def)
  have s: "SIGHUP = SIGUSR2 \<or> SIGHUP = SIGHUP" by simp
  from upgrade_failure_continues [OF h s, of cont_running world_empty] h
  show ?thesis
    by (simp add: cont_running_def cont_new_def world_empty_def calls_def Running_def)
qed

subsection \<open>Runs of Serve from a fresh supervisor\<close>

text \<open>
  C2. The code at TERM in \<open>Ready\<close>: one USR1 leaves \<open>Serve\<close> waiting with the
  state \<open>Ready\<close> and the done channel closed by \<open>closeListeners\<close>; the TERM that
  follows panics in the \<open>close\<close> of \<open>stop\<close>. \<open>Serve\<close> does not return, the state
  is not \<open>Stopped\<close>, and no server is stopped: the only teardown events of the
  run are the two listener closes of the toggle.
\<close>

theorem term_in_ready_panics:
  "is_Waiting (Serve env_ok [(env_ok, SIGUSR1)] cont_two world_empty)
   \<and> Status (oc (Serve env_ok [(env_ok, SIGUSR1)] cont_two world_empty)) = Ready
   \<and> doneChan (oc (Serve env_ok [(env_ok, SIGUSR1)] cont_two world_empty)) = ChanClosed
   \<and> is_Panicked (Serve env_ok [(env_ok, SIGUSR1), (env_ok, SIGTERM)] cont_two world_empty)
   \<and> Status (oc (Serve env_ok [(env_ok, SIGUSR1), (env_ok, SIGTERM)] cont_two world_empty)) = Ready
   \<and> filter is_teardown
         (trace (ow (Serve env_ok [(env_ok, SIGUSR1), (env_ok, SIGTERM)] cont_two world_empty)))
       = [EvLisClose 100, EvLisClose 101]"
  by (simp add: run_defs)

text \<open>
  C6. The code at \<open>stop\<close> and \<open>gracefulStop\<close> in \<open>Ready\<close>: in the state that one
  USR1 leaves behind, both panic in \<open>close\<close>, the done channel being closed
  already, and the trace is left as it was: no server is called.
\<close>

theorem stop_in_ready_panics:
  "Status (oc (Serve env_ok [(env_ok, SIGUSR1)] cont_two world_empty)) = Ready
   \<and> length (servers (oc (Serve env_ok [(env_ok, SIGUSR1)] cont_two world_empty))) = 2
   \<and> is_Panic (stop env_ok (oc (Serve env_ok [(env_ok, SIGUSR1)] cont_two world_empty))
         (ow (Serve env_ok [(env_ok, SIGUSR1)] cont_two world_empty)))
   \<and> trace (rw (stop env_ok (oc (Serve env_ok [(env_ok, SIGUSR1)] cont_two world_empty))
         (ow (Serve env_ok [(env_ok, SIGUSR1)] cont_two world_empty))))
       = trace (ow (Serve env_ok [(env_ok, SIGUSR1)] cont_two world_empty))
   \<and> is_Panic (gracefulStop env_ok (oc (Serve env_ok [(env_ok, SIGUSR1)] cont_two world_empty))
         (ow (Serve env_ok [(env_ok, SIGUSR1)] cont_two world_empty)))
   \<and> trace (rw (gracefulStop env_ok (oc (Serve env_ok [(env_ok, SIGUSR1)] cont_two world_empty))
         (ow (Serve env_ok [(env_ok, SIGUSR1)] cont_two world_empty))))
       = trace (ow (Serve env_ok [(env_ok, SIGUSR1)] cont_two world_empty))"
  by (simp add: run_defs)


text \<open>
  C1. The code at a failing bind: every \<open>Listen\<close> of the first pass fails, yet
  \<open>Serve\<close> does not return; it waits for signals with \<open>Status\<close> reporting
  \<open>Running\<close>, and on a later TERM it returns nil, never the bind error.
\<close>

theorem bind_error_dropped:
  "listen_res env_bind_fails 0 = Inl ''address already in use''
   \<and> is_Waiting (Serve env_bind_fails [] cont_two world_empty)
   \<and> Status (oc (Serve env_bind_fails [] cont_two world_empty)) = Running
   \<and> is_Returned (Serve env_bind_fails [(env_ok, SIGTERM)] cont_two world_empty)
   \<and> oerr (Serve env_bind_fails [(env_ok, SIGTERM)] cont_two world_empty) = None"
  by (simp add: run_defs Running_def)

text \<open>
  C3. The code at a failed fork-exec: after the start of \<open>Serve\<close> the PID file
  holds the decimal pid; after a USR2 whose \<open>StartProcess\<close> fails the state is
  still \<open>Running\<close> but the PID file is gone from its path (it was renamed to
  \<open>.old\<close> before the attempt and is not renamed back).
\<close>

theorem pidfile_lost_after_failed_exec:
  "is_Waiting (Serve env_ok [(env_exec_fails, SIGUSR2)] cont_two world_empty)
   \<and> state (oc (Serve env_ok [(env_exec_fails, SIGUSR2)] cont_two world_empty)) = Running
   \<and> fs (ow (Serve env_ok [] cont_two world_empty)) (pidfile cont_two) = Some (Sprint (pid cont_two))
   \<and> fs (ow (Serve env_ok [(env_exec_fails, SIGUSR2)] cont_two world_empty)) (pidfile cont_two) = None"
  by (simp add: run_defs)

subsection \<open>Toggling and upgrading\<close>

lemma serve_loop_keeps:
  "serve_loop env i ss cont w = (r, cont', w') \<Longrightarrow>
     length (servers cont') = length (servers cont) \<and> state cont' = state cont \<and>
     doneChan cont' = doneChan cont \<and> wg cont' \<subseteq> wg cont \<union> {i..<i + length ss} \<and>
     (list_all (\<lambda>s. lis s \<noteq> None) (servers cont) \<longrightarrow>
        list_all (\<lambda>s. lis s \<noteq> None) (servers cont'))"
proof (induction ss arbitrary: i cont w)
  case Nil
  then show ?case by simp
next
  case (Cons s ss)
  show ?case
  proof (cases "listen_res env i")
    case (Inl err)
    with Cons.prems show ?thesis by (simp add: Let_def)
  next
    case (Inr l)
    let ?c1 = "cont\<lparr>net := net cont @ [l], servers := (servers cont)[i := s\<lparr>lis := Some l\<rparr>],
                    wg := insert i (wg cont)\<rparr>"
    let ?w2 = "emit (EvGo (srv s) l) (emit (EvListen (Network (listenOn s)) (Address (listenOn s))) w)"
    from Cons.prems Inr have "serve_loop env (Suc i) ss ?c1 ?w2 = (r, cont', w')"
      by (simp add: Let_def)
    from Cons.IH [OF this]
    have ih: "length (servers cont') = length (servers ?c1)" "state cont' = state ?c1"
      "doneChan cont' = doneChan ?c1" "wg cont' \<subseteq> wg ?c1 \<union> {Suc i..<Suc i + length ss}"
      "list_all (\<lambda>s. lis s \<noteq> None) (servers ?c1) \<longrightarrow> list_all (\<lambda>s. lis s \<noteq> None) (servers cont')"
      by blast+
    have upd: "list_all (\<lambda>s. lis s \<noteq> None) (servers cont) \<Longrightarrow>
        list_all (\<lambda>s. lis s \<noteq> None) (servers ?c1)"
    proof -
      assume a: "list_all (\<lambda>s. lis s \<noteq> None) (servers cont)"
      have "set ((servers cont)[i := s\<lparr>lis := Some l\<rparr>]) \<subseteq> insert (s\<lparr>lis := Some l\<rparr>) (set (servers cont))"
        by (rule set_update_subset_insert)
      with a show ?thesis by (auto simp: list_all_iff)
    qed
    have wgs: "wg cont' \<subseteq> wg cont \<union> {i..<i + length (s # ss)}"
      using ih(4) by auto
    from ih upd wgs show ?thesis by simp
  qed
qed

lemma serve_loop_binds:
  "serve_loop env i ss cont w = (None, cont', w') \<Longrightarrow> i + length ss \<le> length (servers cont) \<Longrightarrow>
     (\<forall>j<i. lis (servers cont ! j) \<noteq> None) \<Longrightarrow>
     (\<forall>j<i + length ss. lis (servers cont' ! j) \<noteq> None)"
proof (induction ss arbitrary: i cont w)
  case Nil
  then show ?case by simp
next
  case (Cons s ss)
  show ?case
  proof (cases "listen_res env i")
    case (Inl err)
    with Cons.prems show ?thesis by (simp add: Let_def)
  next
    case (Inr l)
    let ?c1 = "cont\<lparr>net := net cont @ [l], servers := (servers cont)[i := s\<lparr>lis := Some l\<rparr>],
                    wg := insert i (wg cont)\<rparr>"
    let ?w2 = "emit (EvGo (srv s) l) (emit (EvListen (Network (listenOn s)) (Address (listenOn s))) w)"
    from Cons.prems Inr have run: "serve_loop env (Suc i) ss ?c1 ?w2 = (None, cont', w')"
      by (simp add: Let_def)
    have len: "Suc i + length ss \<le> length (servers ?c1)" using Cons.prems(2) by simp
    have ilt: "i < length (servers cont)" using Cons.prems(2) by simp
    have before: "\<forall>j<Suc i. lis (servers ?c1 ! j) \<noteq> None"
    proof (intro allI impI)
      fix j assume "j < Suc i"
      then consider "j < i" | "j = i" by linarith
      then show "lis (servers ?c1 ! j) \<noteq> None"
      proof cases
        case 1
        with Cons.prems(3) show ?thesis by simp
      next
        case 2
        with ilt show ?thesis by simp
      qed
    qed
    from Cons.IH [OF run len before] show ?thesis by simp
  qed
qed

lemma serve_loop_all_ok:
  "(\<forall>j<length ss. \<exists>l. listen_res env (i + j) = Inr l) \<Longrightarrow>
     fst (serve_loop env i ss cont w) = None"
proof (induction ss arbitrary: i cont w)
  case Nil
  show ?case by simp
next
  case (Cons s ss)
  from Cons.prems obtain l where here: "listen_res env i = Inr l" by force
  have later: "\<forall>j<length ss. \<exists>l. listen_res env (Suc i + j) = Inr l"
  proof (intro allI impI)
    fix j assume "j < length ss"
    then have "Suc j < length (s # ss)" by simp
    with Cons.prems have "\<exists>l. listen_res env (i + Suc j) = Inr l" by blast
    then show "\<exists>l. listen_res env (Suc i + j) = Inr l" by simp
  qed
  show ?case using here Cons.IH [OF later] by (simp add: Let_def)
qed

lemma close_loop_ok:
  "list_all (\<lambda>s. lis s \<noteq> None) ss \<Longrightarrow>
     \<exists>w'. close_loop env i ss cont w = Ok () (cont\<lparr>wg := wg cont - {i..<i + length ss}\<rparr>) w'"
proof (induction ss arbitrary: i cont w)
  case Nil
  show ?case by simp
next
  case (Cons s ss)
  from Cons.prems obtain l where l: "lis s = Some l" by auto
  from Cons.prems have rest: "list_all (\<lambda>s. lis s \<noteq> None) ss" by simp
  let ?c3 = "cont\<lparr>wg := wg cont - {i}\<rparr>"
  have sets: "wg cont - {i} - {Suc i..<Suc i + length ss} = wg cont - {i..<i + length (s # ss)}"
    by auto
  have same: "i \<notin> wg cont \<Longrightarrow> cont = ?c3" by simp
  obtain w3 where step:
    "close_loop env i (s # ss) cont w = close_loop env (Suc i) ss ?c3 w3"
  proof (cases "i \<in> wg cont")
    case True
    with l show ?thesis
      by (intro that) (simp add: Let_def accept_loop_exit_def split: prod.splits)
  next
    case False
    with l same show ?thesis
      by (intro that) (simp add: Let_def split: prod.splits)
  qed
  from Cons.IH [OF rest, of "Suc i" ?c3 w3] step sets show ?case by simp
qed

lemma upgrade_keeps:
  "upgrade env cont w = (r, cont', w') \<Longrightarrow> cont' = cont \<or> (\<exists>p. cont' = cont\<lparr>child := p\<rparr>)"
  by (auto simp: upgrade_def Let_def split: prod.splits sum.splits)

lemma toggle_step:
  assumes inv: "toggle_inv cont" and sig: "sig = SIGUSR1 \<or> sig = SIGUSR2"
  shows "\<exists>cont' w'. handle env sig cont w = Waiting cont' w' \<and> toggle_inv cont' \<and>
           state cont' = spec_step (state cont) sig"
proof -
  consider (up) "sig = SIGUSR2"
    | (close) "sig = SIGUSR1" "state cont = Running" "doneChan cont = ChanOpen"
    | (reopen) "sig = SIGUSR1" "state cont = Ready" "doneChan cont = ChanClosed" "wg cont = {}"
    using inv sig by (auto simp: toggle_inv_def)
  then show ?thesis
  proof cases
    case up
    obtain r cont' w' where u: "upgrade env cont w = (r, cont', w')" by (cases "upgrade env cont w")
    from upgrade_keeps [OF u] inv have "toggle_inv cont'" "state cont' = state cont"
      by (auto simp: toggle_inv_def)
    with up u show ?thesis by (cases r) auto
  next
    case close
    let ?c0 = "cont\<lparr>state := Ready, doneChan := ChanClosed\<rparr>"
    from inv have all: "list_all (\<lambda>s. lis s \<noteq> None) (servers ?c0)" by (simp add: toggle_inv_def)
    from close_loop_ok [OF all, of env 0 ?c0 "emit EvCloseDone w"]
    obtain w' where cl: "close_loop env 0 (servers cont) ?c0 (emit EvCloseDone w)
        = Ok () (?c0\<lparr>wg := wg cont - {0..<length (servers cont)}\<rparr>) w'"
      by auto
    from inv have "wg cont - {0..<length (servers cont)} = {}" by (auto simp: toggle_inv_def)
    with cl have cl': "close_loop env 0 (servers cont) ?c0 (emit EvCloseDone w)
        = Ok () (?c0\<lparr>wg := {}\<rparr>) w'" by simp
    have h: "handle env sig cont w = Waiting (?c0\<lparr>wg := {}, net := []\<rparr>) w'"
      using close cl' by (simp add: closeListeners_def)
    have "toggle_inv (?c0\<lparr>wg := {}, net := []\<rparr>)" using inv by (simp add: toggle_inv_def)
    with h close show ?thesis by simp
  next
    case reopen
    let ?c0 = "cont\<lparr>doneChan := ChanOpen\<rparr>"
    obtain r c1 w1 where sl: "serve_loop env 0 (servers ?c0) ?c0 (emit EvMakeDone (emit EvWgWait w)) = (r, c1, w1)"
      by (cases "serve_loop env 0 (servers ?c0) ?c0 (emit EvMakeDone (emit EvWgWait w))")
    from serve_loop_keeps [OF sl] inv reopen
    have k: "length (servers c1) = length (servers cont)" "doneChan c1 = ChanOpen"
      "wg c1 \<subseteq> {..<length (servers cont)}" "list_all (\<lambda>s. lis s \<noteq> None) (servers c1)"
      by (auto simp: toggle_inv_def)
    then have i1: "toggle_inv (c1\<lparr>state := Running\<rparr>)" by (simp add: toggle_inv_def)
    have h: "handle env sig cont w = Waiting (c1\<lparr>state := Running\<rparr>) w1"
      using reopen sl by (cases r) (simp_all add: serve_def Let_def)
    from h i1 reopen show ?thesis by simp
  qed
qed

lemma toggle_loop:
  "toggle_inv cont \<Longrightarrow> \<forall>x\<in>set sigs. snd x = SIGUSR1 \<or> snd x = SIGUSR2 \<Longrightarrow>
     \<exists>cont' w'. signal_loop sigs cont w = Waiting cont' w' \<and> toggle_inv cont' \<and>
        state cont' = foldl spec_step (state cont) (map snd sigs)"
proof (induction sigs arbitrary: cont w)
  case Nil
  then show ?case by simp
next
  case (Cons x sigs)
  obtain env sig where x: "x = (env, sig)" by (cases x)
  with Cons.prems have sig: "sig = SIGUSR1 \<or> sig = SIGUSR2" by simp
  from toggle_step [OF Cons.prems(1) sig, of env "logmsg InfoLevel ''got signal'' None w"]
  obtain c1 w1 where st: "handle env sig cont (logmsg InfoLevel ''got signal'' None w) = Waiting c1 w1"
    "toggle_inv c1" "state c1 = spec_step (state cont) sig" by blast
  from Cons.prems have rest: "\<forall>x\<in>set sigs. snd x = SIGUSR1 \<or> snd x = SIGUSR2" by simp
  from Cons.IH [OF st(2) rest, of w1] st x show ?case by simp
qed

lemma first_pass_inv:
  assumes "\<forall>i<length (servers cont). \<exists>l. listen_res env i = Inr l" and "wg cont = {}"
  shows "\<exists>cont' w'. serve env cont w = (None, cont', w') \<and> toggle_inv cont' \<and> state cont' = Running"
proof -
  let ?c0 = "cont\<lparr>doneChan := ChanOpen\<rparr>"
  obtain r c1 w1 where sl: "serve_loop env 0 (servers ?c0) ?c0 (emit EvMakeDone w) = (r, c1, w1)"
    by (cases "serve_loop env 0 (servers ?c0) ?c0 (emit EvMakeDone w)")
  from assms(1) have "\<forall>j<length (servers ?c0). \<exists>l. listen_res env (0 + j) = Inr l" by simp
  from serve_loop_all_ok [OF this, of ?c0 "emit EvMakeDone w"] sl have r: "r = None" by simp
  from serve_loop_keeps [OF sl] assms(2)
  have k: "length (servers c1) = length (servers cont)" "doneChan c1 = ChanOpen"
    "wg c1 \<subseteq> {..<length (servers cont)}" by auto
  have "\<forall>j<0 + length (servers ?c0). lis (servers c1 ! j) \<noteq> None"
    by (rule serve_loop_binds [OF sl [unfolded r]]) simp_all
  with k(1) have all: "list_all (\<lambda>s. lis s \<noteq> None) (servers c1)"
    by (simp add: list_all_length)
  from k all have "toggle_inv (c1\<lparr>state := Running\<rparr>)" by (simp add: toggle_inv_def)
  moreover have "serve env cont w = (None, c1\<lparr>state := Running\<rparr>, w1)"
    using sl r by (simp add: serve_def Let_def)
  ultimately show ?thesis by simp
qed


text \<open>
  Toggling after a first pass that bound every listener. Let \<open>Serve\<close> start on a
  supervisor with no accept loop yet, with the PID file written and every
  listener of the first pass bound, and let it then receive any sequence of USR1
  and USR2 signals, whatever the calls made while handling them return. After
  every prefix of the sequence \<open>Serve\<close> is still waiting for signals (it has
  neither returned, panicked nor blocked) and the state is the one the
  specification computes: \<open>Running\<close> at first, flipped between \<open>Running\<close> and
  \<open>Ready\<close> by each USR1 and left alone by each USR2.
\<close>

lemma toggle_after_bound_pass:
  assumes "write_res env0 = None"
    and "\<forall>i<length (servers cont). \<exists>l. listen_res env0 i = Inr l"
    and "wg cont = {}"
    and "\<forall>x\<in>set sigs. snd x = SIGUSR1 \<or> snd x = SIGUSR2"
  shows "\<forall>n\<le>length sigs. \<exists>cont' w'.
           Serve env0 (take n sigs) cont w = Waiting cont' w' \<and>
           Status cont' = foldl spec_step Running (map snd (take n sigs)) \<and>
           (Status cont' = Running \<or> Status cont' = Ready)"
proof (intro allI impI)
  fix n assume "n \<le> length sigs"
  obtain w1 where
    wp: "writePid env0 cont (logmsg DebugLevel ''continuous serving'' None w) = (None, w1)"
    using assms(1) by (simp add: writePid_def WriteFile_def Let_def)
  from first_pass_inv [OF assms(2,3), of w1]
  obtain c2 w2 where fp: "serve env0 cont w1 = (None, c2, w2)" "toggle_inv c2" "state c2 = Running"
    by blast
  have sub: "\<forall>x\<in>set (take n sigs). snd x = SIGUSR1 \<or> snd x = SIGUSR2"
    using assms(4) by (meson in_set_takeD)
  from toggle_loop [OF fp(2) sub, of "logmsg DebugLevel ''waiting for signals'' None w2"]
  obtain c3 w3 where lp:
    "signal_loop (take n sigs) c2 (logmsg DebugLevel ''waiting for signals'' None w2) = Waiting c3 w3"
    "toggle_inv c3" "state c3 = foldl spec_step (state c2) (map snd (take n sigs))"
    by blast
  have run: "Serve env0 (take n sigs) cont w = Waiting c3 w3"
    using wp fp(1) lp(1) by (simp add: Serve_def Let_def)
  from lp(2) have "state c3 = Running \<or> state c3 = Ready" by (auto simp: toggle_inv_def)
  with run lp(3) fp(3)
  show "\<exists>cont' w'.
           Serve env0 (take n sigs) cont w = Waiting cont' w' \<and>
           Status cont' = foldl spec_step Running (map snd (take n sigs)) \<and>
           (Status cont' = Running \<or> Status cont' = Ready)"
    by (simp add: Status_def)
qed

subsection \<open>The done channel is closed before any listener\<close>

lemma grows_refl: "grows P w w"
  by (simp add: grows_def)

lemma grows_emit: "P e \<Longrightarrow> grows P w (emit e w)"
  by (simp add: grows_def)

lemma grows_logmsg: "P (EvLog l m e) \<Longrightarrow> grows P w (logmsg l m e w)"
  by (simp add: grows_def)

lemma grows_trans: "grows P w w1 \<Longrightarrow> grows P w1 w2 \<Longrightarrow> grows P w w2"
  by (auto simp: grows_def)

lemma grows_mono: "grows P w w' \<Longrightarrow> (\<And>e. P e \<Longrightarrow> Q e) \<Longrightarrow> grows Q w w'"
  by (auto simp: grows_def list_all_iff)

lemma closes_quiet: "list_all (\<lambda>e. \<not> is_teardown e) evs \<Longrightarrow> closes_after_done d evs"
  by (induction evs arbitrary: d) auto

lemma closes_once_closed: "list_all (\<lambda>e. e \<noteq> EvMakeDone) evs \<Longrightarrow> closes_after_done True evs"
  by (induction evs) auto

lemma closes_quiet_then_closed:
  "list_all (\<lambda>e. \<not> is_teardown e) xs \<Longrightarrow> list_all (\<lambda>e. e \<noteq> EvMakeDone) ys \<Longrightarrow>
     closes_after_done d (xs @ EvCloseDone # ys)"
  by (induction xs arbitrary: d) (auto simp: closes_once_closed)

lemma quiet_shape:
  "grows (\<lambda>e. \<not> is_teardown e) w w' \<Longrightarrow>
     \<exists>evs. trace w' = trace w @ evs \<and> closes_after_done d evs"
  by (auto simp: grows_def closes_quiet)

lemma closed_shape:
  assumes "grows (\<lambda>e. \<not> is_teardown e) w w1"
    and "grows (\<lambda>e. e \<noteq> EvMakeDone) (emit EvCloseDone w1) w'"
  shows "\<exists>evs. trace w' = trace w @ evs \<and> closes_after_done d evs"
proof -
  from assms(1) obtain xs where xs: "trace w1 = trace w @ xs" "list_all (\<lambda>e. \<not> is_teardown e) xs"
    by (auto simp: grows_def)
  from assms(2) obtain ys where ys: "trace w' = trace w1 @ [EvCloseDone] @ ys"
    "list_all (\<lambda>e. e \<noteq> EvMakeDone) ys"
    by (auto simp: grows_def)
  from xs ys have "trace w' = trace w @ (xs @ EvCloseDone # ys)" by simp
  moreover from xs ys have "closes_after_done d (xs @ EvCloseDone # ys)"
    by (simp add: closes_quiet_then_closed)
  ultimately show ?thesis by blast
qed

lemma stop_each_grows: "(\<And>s. P (ev s)) \<Longrightarrow> grows P w (snd (stop_each res ev i ss w))"
proof (induction ss arbitrary: i w)
  case Nil
  show ?case by (simp add: grows_refl)
next
  case (Cons s ss)
  have one: "grows P w (emit (ev (srv s)) w)" by (rule grows_emit) (rule Cons.prems)
  show ?case
  proof (cases "res i")
    case None
    from Cons.IH [OF Cons.prems, of "emit (ev (srv s)) w" "Suc i"]
    have "grows P (emit (ev (srv s)) w) (snd (stop_each res ev (Suc i) ss (emit (ev (srv s)) w)))" .
    with one None show ?thesis by (simp add: Let_def) (rule grows_trans)
  next
    case (Some err)
    with one show ?thesis by (simp add: Let_def)
  qed
qed

lemma close_loop_grows:
  "doneChan cont = ChanClosed \<Longrightarrow>
     grows (\<lambda>e. (\<exists>l. e = EvLisClose l) \<or> (\<exists>x. e = EvLog ErrorLevel ''close listener failed'' x))
       w (rw (close_loop env i ss cont w))"
  (is "_ \<Longrightarrow> grows ?P _ _")
proof (induction ss arbitrary: i cont w)
  case Nil
  show ?case by (simp add: grows_refl)
next
  case (Cons s ss)
  show ?case
  proof (cases "lis s")
    case None
    then show ?thesis by (simp add: grows_refl)
  next
    case (Some l)
    let ?w1 = "emit (EvLisClose l) w"
    let ?w2 = "case close_res env i of None \<Rightarrow> ?w1
               | Some err \<Rightarrow> logmsg ErrorLevel ''close listener failed'' (Some err) ?w1"
    let ?c3 = "if i \<in> wg cont then cont\<lparr>wg := wg cont - {i}\<rparr> else cont"
    have g1: "grows ?P w ?w1" by (rule grows_emit) simp
    have g2: "grows ?P ?w1 ?w2"
      by (cases "close_res env i") (simp_all add: grows_refl grows_logmsg)
    have exit: "accept_loop_exit i (serve_res env i) cont ?w2 = (cont\<lparr>wg := wg cont - {i}\<rparr>, ?w2)"
      using Cons.prems by (simp add: accept_loop_exit_def Let_def split: option.splits)
    have step: "close_loop env i (s # ss) cont w = close_loop env (Suc i) ss ?c3 ?w2"
    proof (cases "i \<in> wg cont")
      case True
      with Some exit show ?thesis by (simp add: Let_def)
    next
      case False
      with Some show ?thesis by (simp add: Let_def)
    qed
    have c3: "doneChan ?c3 = ChanClosed" using Cons.prems by simp
    from Cons.IH [OF c3, of ?w2 "Suc i"]
    have g3: "grows ?P ?w2 (rw (close_loop env (Suc i) ss ?c3 ?w2))" .
    show ?thesis unfolding step by (rule grows_trans [OF grows_trans [OF g1 g2] g3])
  qed
qed

lemma close_loop_doneChan:
  "close_loop env i ss cont w = Ok u cont' w' \<Longrightarrow> doneChan cont' = doneChan cont"
proof (induction ss arbitrary: i cont w)
  case Nil
  then show ?case by simp
next
  case (Cons s ss)
  from Cons.prems obtain l where l: "lis s = Some l" by (cases "lis s") simp_all
  from Cons.prems l obtain c3 w3 where
    step: "close_loop env (Suc i) ss c3 w3 = Ok u cont' w'" and c3: "doneChan c3 = doneChan cont"
    by (auto simp: Let_def accept_loop_exit_def split: prod.splits if_splits)
  from Cons.IH [OF step] c3 show ?case by simp
qed

lemma serve_loop_grows:
  "grows (\<lambda>e. \<not> is_teardown e) w (snd (snd (serve_loop env i ss cont w)))"
proof (induction ss arbitrary: i cont w)
  case Nil
  show ?case by (simp add: grows_refl)
next
  case (Cons s ss)
  let ?w1 = "emit (EvListen (Network (listenOn s)) (Address (listenOn s))) w"
  have g1: "grows (\<lambda>e. \<not> is_teardown e) w ?w1" by (rule grows_emit) simp
  show ?case
  proof (cases "listen_res env i")
    case (Inl err)
    with g1 show ?thesis by (simp add: Let_def)
  next
    case (Inr l)
    let ?w2 = "emit (EvGo (srv s) l) ?w1"
    let ?c1 = "cont\<lparr>net := net cont @ [l], servers := (servers cont)[i := s\<lparr>lis := Some l\<rparr>],
                    wg := insert i (wg cont)\<rparr>"
    have g2: "grows (\<lambda>e. \<not> is_teardown e) ?w1 ?w2" by (rule grows_emit) simp
    have g3: "grows (\<lambda>e. \<not> is_teardown e) ?w2 (snd (snd (serve_loop env (Suc i) ss ?c1 ?w2)))"
      by (rule Cons.IH)
    have step: "serve_loop env i (s # ss) cont w = serve_loop env (Suc i) ss ?c1 ?w2"
      using Inr by (simp add: Let_def)
    show ?thesis unfolding step by (rule grows_trans [OF grows_trans [OF g1 g2] g3])
  qed
qed

lemma serve_grows: "grows (\<lambda>e. \<not> is_teardown e) w (snd (snd (serve env cont w)))"
proof -
  let ?c0 = "cont\<lparr>doneChan := ChanOpen\<rparr>"
  let ?w0 = "emit EvMakeDone w"
  have g0: "grows (\<lambda>e. \<not> is_teardown e) w ?w0" by (rule grows_emit) simp
  have g1: "grows (\<lambda>e. \<not> is_teardown e) ?w0 (snd (snd (serve_loop env 0 (servers ?c0) ?c0 ?w0)))"
    by (rule serve_loop_grows)
  have eq: "snd (snd (serve env cont w)) = snd (snd (serve_loop env 0 (servers ?c0) ?c0 ?w0))"
    by (simp add: serve_def Let_def split: prod.splits option.splits)
  show ?thesis unfolding eq by (rule grows_trans [OF g0 g1])
qed

lemma Rename_grows: "grows (\<lambda>e. \<not> is_teardown e) w (snd (Rename env a b w))"
  by (simp add: Rename_def Let_def grows_def emit_def split: option.splits)

lemma upgrade_grows: "grows (\<lambda>e. \<not> is_teardown e) w (snd (snd (upgrade env cont w)))"
  by (simp add: upgrade_def Rename_def Let_def grows_def split: option.splits sum.splits prod.splits)

lemma stop_shape:
  "(\<exists>evs. trace (rw (stop env cont w)) = trace w @ evs \<and> closes_after_done d evs) \<and>
   (is_Ok (stop env cont w) \<longrightarrow> doneChan (rc (stop env cont w)) = ChanClosed)"
proof (cases "doneChan cont = ChanOpen")
  case False
  then show ?thesis by (simp add: stop_def quiet_shape grows_refl)
next
  case True
  let ?w1 = "emit EvCloseDone w"
  let ?r = "stop_each (stop_res env) EvStop 0 (servers cont) ?w1"
  have g: "grows (\<lambda>e. e \<noteq> EvMakeDone) ?w1 (snd ?r)" by (rule stop_each_grows) simp
  have rw: "rw (stop env cont w) = snd ?r" and ok: "doneChan (rc (stop env cont w)) = ChanClosed"
    using True by (simp_all add: stop_def Let_def split: prod.splits option.splits)
  from closed_shape [OF grows_refl g] rw ok show ?thesis by simp
qed

lemma gracefulStop_shape:
  "(\<exists>evs. trace (rw (gracefulStop env cont w)) = trace w @ evs \<and> closes_after_done d evs) \<and>
   (is_Ok (gracefulStop env cont w) \<longrightarrow> doneChan (rc (gracefulStop env cont w)) = ChanClosed)"
proof (cases "doneChan cont = ChanOpen")
  case False
  then show ?thesis by (simp add: gracefulStop_def quiet_shape grows_refl)
next
  case True
  let ?w1 = "emit EvCloseDone w"
  let ?r = "stop_each (gstop_res env) EvGracefulStop 0 (servers cont) ?w1"
  have g: "grows (\<lambda>e. e \<noteq> EvMakeDone) ?w1 (snd ?r)" by (rule stop_each_grows) simp
  have rw: "rw (gracefulStop env cont w) = snd ?r"
    and ok: "doneChan (rc (gracefulStop env cont w)) = ChanClosed"
    using True by (simp_all add: gracefulStop_def Let_def split: prod.splits option.splits)
  from closed_shape [OF grows_refl g] rw ok show ?thesis by simp
qed

lemma closeListeners_grows:
  "doneChan cont = ChanOpen \<Longrightarrow>
     grows (\<lambda>e. (\<exists>l. e = EvLisClose l) \<or> (\<exists>x. e = EvLog ErrorLevel ''close listener failed'' x))
       (emit EvCloseDone w) (rw (closeListeners env cont w))"
proof -
  assume live: "doneChan cont = ChanOpen"
  let ?c0 = "cont\<lparr>doneChan := ChanClosed\<rparr>"
  let ?r = "close_loop env 0 (servers cont) ?c0 (emit EvCloseDone w)"
  have "rw (closeListeners env cont w) = rw ?r"
    using live by (simp add: closeListeners_def split: result.splits)
  moreover have "grows (\<lambda>e. (\<exists>l. e = EvLisClose l) \<or> (\<exists>x. e = EvLog ErrorLevel ''close listener failed'' x))
       (emit EvCloseDone w) (rw ?r)"
    by (rule close_loop_grows) simp
  ultimately show ?thesis by simp
qed

lemma closeListeners_shape:
  "(\<exists>evs. trace (rw (closeListeners env cont w)) = trace w @ evs \<and> closes_after_done d evs \<and>
       (\<forall>x. EvLog ErrorLevel ''serve failed'' x \<notin> set evs)) \<and>
   (is_Ok (closeListeners env cont w) \<longrightarrow> doneChan (rc (closeListeners env cont w)) = ChanClosed)"
proof (cases "doneChan cont = ChanOpen")
  case False
  then show ?thesis by (simp add: closeListeners_def)
next
  case True
  let ?P = "\<lambda>e. (\<exists>l. e = EvLisClose l) \<or> (\<exists>x. e = EvLog ErrorLevel ''close listener failed'' x)"
  let ?c0 = "cont\<lparr>doneChan := ChanClosed\<rparr>"
  from closeListeners_grows [OF True, of w env, unfolded grows_def]
  obtain ys where ys0: "trace (rw (closeListeners env cont w)) = trace (emit EvCloseDone w) @ ys"
    and ysP: "list_all ?P ys"
    by blast
  from ys0 have ys: "trace (rw (closeListeners env cont w)) = trace w @ EvCloseDone # ys" by simp
  from ysP have a: "list_all (\<lambda>e. e \<noteq> EvMakeDone) ys"
    by (induction ys) auto
  from ysP have b: "\<forall>x. EvLog ErrorLevel ''serve failed'' x \<notin> set ys"
    by (induction ys) auto
  from a have "closes_after_done d (EvCloseDone # ys)" by (simp add: closes_once_closed)
  with ys b have first: "\<exists>evs. trace (rw (closeListeners env cont w)) = trace w @ evs \<and>
      closes_after_done d evs \<and> (\<forall>x. EvLog ErrorLevel ''serve failed'' x \<notin> set evs)"
    by (intro exI [of _ "EvCloseDone # ys"]) simp
  have second: "is_Ok (closeListeners env cont w) \<longrightarrow> doneChan (rc (closeListeners env cont w)) = ChanClosed"
  proof (cases "close_loop env 0 (servers cont) ?c0 (emit EvCloseDone w)")
    case (Ok u c1 w1)
    from close_loop_doneChan [OF Ok] have "doneChan c1 = ChanClosed" by simp
    with True Ok show ?thesis by (simp add: closeListeners_def)
  next
    case (Panic c1 w1)
    with True show ?thesis by (simp add: closeListeners_def)
  qed
  from first second show ?thesis by (rule conjI)
qed

lemma handle_shape:
  "\<exists>evs. trace (ow (handle env sig cont w)) = trace w @ evs \<and> closes_after_done d evs"
proof (cases sig)
  case SIGTERM
  have "ow (handle env SIGTERM cont w) = rw (stop env cont w)"
    by (simp split: result.splits)
  with stop_shape [of env cont w d] SIGTERM show ?thesis by simp
next
  case SIGQUIT
  have "ow (handle env SIGQUIT cont w) = rw (gracefulStop env cont w)"
    by (simp split: result.splits)
  with gracefulStop_shape [of env cont w d] SIGQUIT show ?thesis by simp
next
  case SIGUSR1
  show ?thesis
  proof (cases "state cont = Running")
    case True
    have "ow (handle env SIGUSR1 cont w) = rw (closeListeners env (cont\<lparr>state := Ready\<rparr>) w)"
      using True by (simp split: result.splits)
    with closeListeners_shape [of env "cont\<lparr>state := Ready\<rparr>" w d] SIGUSR1 show ?thesis by auto
  next
    case False
    have "grows (\<lambda>e. \<not> is_teardown e) w (ow (handle env SIGUSR1 cont w))"
    proof (cases "state cont = Ready \<and> wg cont = {}")
      case True
      have g1: "grows (\<lambda>e. \<not> is_teardown e) w (emit EvWgWait w)" by (rule grows_emit) simp
      have eq: "ow (handle env SIGUSR1 cont w) = snd (snd (serve env cont (emit EvWgWait w)))"
        using True False by (simp add: Let_def split: prod.splits)
      show ?thesis unfolding eq by (rule grows_trans [OF g1 serve_grows])
    next
      case no: False
      with False show ?thesis by (auto simp: Let_def grows_refl grows_emit)
    qed
    with SIGUSR1 show ?thesis by (simp add: quiet_shape)
  qed
next
  case SIGUSR2
  have g: "grows (\<lambda>e. \<not> is_teardown e) w (snd (snd (upgrade env cont w)))" by (rule upgrade_grows)
  have "grows (\<lambda>e. \<not> is_teardown e) w (ow (handle env SIGUSR2 cont w))"
  proof (cases "upgrade env cont w")
    case (fields r c1 w1)
    with g have g1: "grows (\<lambda>e. \<not> is_teardown e) w w1" by simp
    show ?thesis
    proof (cases r)
      case None
      with fields g1 show ?thesis by simp
    next
      case (Some err)
      have "grows (\<lambda>e. \<not> is_teardown e) w1 (logmsg ErrorLevel ''upgrade binary failed'' (Some err) w1)"
        by (rule grows_logmsg) simp
      with g1 fields Some show ?thesis by simp (rule grows_trans)
    qed
  qed
  with SIGUSR2 show ?thesis by (simp add: quiet_shape)
next
  case SIGHUP
  have g: "grows (\<lambda>e. \<not> is_teardown e) w (snd (snd (upgrade env cont w)))" by (rule upgrade_grows)
  show ?thesis
  proof (cases "upgrade env cont w")
    case (fields r c1 w1)
    with g have g1: "grows (\<lambda>e. \<not> is_teardown e) w w1" by simp
    show ?thesis
    proof (cases r)
      case (Some err)
      have "grows (\<lambda>e. \<not> is_teardown e) w1 (logmsg ErrorLevel ''upgrade binary failed'' (Some err) w1)"
        by (rule grows_logmsg) simp
      with g1 have gg: "grows (\<lambda>e. \<not> is_teardown e) w (logmsg ErrorLevel ''upgrade binary failed'' (Some err) w1)"
        by (rule grows_trans)
      from quiet_shape [OF gg, of d] fields Some SIGHUP show ?thesis by simp
    next
      case None
      show ?thesis
      proof (cases "doneChan c1 = ChanOpen")
        case False
        with fields None SIGHUP g1 show ?thesis
          by (simp add: gracefulStop_def quiet_shape)
      next
        case True
        let ?w2 = "emit EvCloseDone w1"
        let ?r = "stop_each (gstop_res env) EvGracefulStop 0 (servers c1) ?w2"
        have g2: "grows (\<lambda>e. e \<noteq> EvMakeDone) ?w2 (snd ?r)" by (rule stop_each_grows) simp
        obtain q w2 where rr: "?r = (q, w2)" by (cases ?r)
        with g2 have g2': "grows (\<lambda>e. e \<noteq> EvMakeDone) ?w2 w2" by simp
        show ?thesis
        proof (cases q)
          case ok: None
          have "ow (handle env SIGHUP cont w) = w2"
            using fields None True ok rr by (simp add: gracefulStop_def Let_def)
          with closed_shape [OF g1 g2'] SIGHUP show ?thesis by simp
        next
          case (Some err)
          have g3: "grows (\<lambda>e. e \<noteq> EvMakeDone) w2
              (logmsg ErrorLevel ''upgrade binary failed'' (Some err) w2)"
            by (rule grows_logmsg) simp
          have "ow (handle env SIGHUP cont w) = logmsg ErrorLevel ''upgrade binary failed'' (Some err) w2"
            using fields None True Some rr by (simp add: gracefulStop_def Let_def)
          with closed_shape [OF g1 grows_trans [OF g2' g3], of d] SIGHUP show ?thesis by simp
        qed
      qed
    qed
  qed
next
  case SIGCHLD
  have "grows (\<lambda>e. \<not> is_teardown e) w (ow (handle env SIGCHLD cont w))"
    by (simp add: Let_def Rename_def grows_def split: option.splits prod.splits wait_outcome.splits)
  with SIGCHLD show ?thesis by (simp add: quiet_shape)
qed


lemma stop_each_prefix:
  "\<exists>k. (ss = [] \<or> 0 < k) \<and>
     snd (stop_each res ev i ss w) = w\<lparr>trace := trace w @ map (\<lambda>s. ev (srv s)) (take k ss)\<rparr>"
proof (induction ss arbitrary: i w)
  case Nil
  show ?case by simp
next
  case (Cons s ss)
  show ?case
  proof (cases "res i")
    case (Some err)
    then have "snd (stop_each res ev i (s # ss) w)
        = w\<lparr>trace := trace w @ map (\<lambda>s. ev (srv s)) (take 1 (s # ss))\<rparr>"
      by (simp add: emit_def)
    then show ?thesis by (intro exI [of _ 1]) simp
  next
    case None
    from Cons.IH [of "Suc i" "emit (ev (srv s)) w"] obtain k where
      k: "snd (stop_each res ev (Suc i) ss (emit (ev (srv s)) w))
          = (emit (ev (srv s)) w)\<lparr>trace := trace (emit (ev (srv s)) w)
              @ map (\<lambda>s. ev (srv s)) (take k ss)\<rparr>"
      by blast
    with None have "snd (stop_each res ev i (s # ss) w)
        = w\<lparr>trace := trace w @ map (\<lambda>s. ev (srv s)) (take (Suc k) (s # ss))\<rparr>"
      by (simp add: emit_def)
    then show ?thesis by (intro exI [of _ "Suc k"]) simp
  qed
qed

lemma stop_live:
  assumes "doneChan cont = ChanOpen"
  shows "\<exists>k. (servers cont = [] \<or> 0 < k) \<and>
     trace (rw (stop env cont w))
       = trace w @ EvCloseDone # map (\<lambda>s. EvStop (srv s)) (take k (servers cont))"
proof -
  let ?w1 = "emit EvCloseDone w"
  let ?r = "stop_each (stop_res env) EvStop 0 (servers cont) ?w1"
  have rw: "rw (stop env cont w) = snd ?r"
    using assms by (simp add: stop_def Let_def split: prod.splits option.splits)
  from stop_each_prefix [of "servers cont" "stop_res env" EvStop 0 ?w1]
  obtain k where k: "servers cont = [] \<or> 0 < k"
    "snd ?r = ?w1\<lparr>trace := trace ?w1 @ map (\<lambda>s. EvStop (srv s)) (take k (servers cont))\<rparr>"
    by blast
  from k(2) rw have "trace (rw (stop env cont w))
       = trace w @ EvCloseDone # map (\<lambda>s. EvStop (srv s)) (take k (servers cont))"
    by simp
  with k(1) show ?thesis by blast
qed

lemma gracefulStop_live:
  assumes "doneChan cont = ChanOpen"
  shows "\<exists>k. (servers cont = [] \<or> 0 < k) \<and>
     trace (rw (gracefulStop env cont w))
       = trace w @ EvCloseDone # map (\<lambda>s. EvGracefulStop (srv s)) (take k (servers cont))"
proof -
  let ?w1 = "emit EvCloseDone w"
  let ?r = "stop_each (gstop_res env) EvGracefulStop 0 (servers cont) ?w1"
  have rw: "rw (gracefulStop env cont w) = snd ?r"
    using assms by (simp add: gracefulStop_def Let_def split: prod.splits option.splits)
  from stop_each_prefix [of "servers cont" "gstop_res env" EvGracefulStop 0 ?w1]
  obtain k where k: "servers cont = [] \<or> 0 < k"
    "snd ?r = ?w1\<lparr>trace := trace ?w1 @ map (\<lambda>s. EvGracefulStop (srv s)) (take k (servers cont))\<rparr>"
    by blast
  from k(2) rw have "trace (rw (gracefulStop env cont w))
       = trace w @ EvCloseDone # map (\<lambda>s. EvGracefulStop (srv s)) (take k (servers cont))"
    by simp
  with k(1) show ?thesis by blast
qed

lemma close_loop_closes:
  "\<exists>evs. trace (rw (close_loop env i ss cont w)) = trace w @ evs \<and>
     filter is_teardown evs
       = map (\<lambda>s. EvLisClose (the (lis s))) (takeWhile (\<lambda>s. lis s \<noteq> None) ss)"
proof (induction ss arbitrary: i cont w)
  case Nil
  show ?case by simp
next
  case (Cons s ss)
  show ?case
  proof (cases "lis s")
    case None
    then show ?thesis by simp
  next
    case (Some l)
    let ?w2 = "case close_res env i of None \<Rightarrow> emit (EvLisClose l) w
               | Some err \<Rightarrow> logmsg ErrorLevel ''close listener failed'' (Some err) (emit (EvLisClose l) w)"
    let ?r = "if i \<in> wg cont then accept_loop_exit i (serve_res env i) cont ?w2 else (cont, ?w2)"
    have step: "close_loop env i (s # ss) cont w = close_loop env (Suc i) ss (fst ?r) (snd ?r)"
      using Some by (simp add: Let_def split: prod.splits)
    have "\<exists>logs. trace (snd ?r) = trace w @ EvLisClose l # logs \<and> filter is_teardown logs = []"
      by (cases "close_res env i"; cases "serve_res env i")
         (simp_all add: accept_loop_exit_def Let_def)
    then obtain logs where logs: "trace (snd ?r) = trace w @ EvLisClose l # logs"
      "filter is_teardown logs = []"
      by blast
    from Cons.IH [of "Suc i" "fst ?r" "snd ?r"] obtain evs where
      evs: "trace (rw (close_loop env (Suc i) ss (fst ?r) (snd ?r))) = trace (snd ?r) @ evs"
      "filter is_teardown evs
         = map (\<lambda>s. EvLisClose (the (lis s))) (takeWhile (\<lambda>s. lis s \<noteq> None) ss)"
      by blast
    have a: "trace (rw (close_loop env i (s # ss) cont w)) = trace w @ (EvLisClose l # logs @ evs)"
      unfolding step using evs(1) logs(1) by simp
    have b: "filter is_teardown (EvLisClose l # logs @ evs)
        = map (\<lambda>s. EvLisClose (the (lis s))) (takeWhile (\<lambda>s. lis s \<noteq> None) (s # ss))"
      using Some logs(2) evs(2) by simp
    from a b show ?thesis by blast
  qed
qed

lemma closeListeners_live:
  assumes "doneChan cont = ChanOpen"
  shows "\<exists>evs. trace (rw (closeListeners env cont w)) = trace w @ EvCloseDone # evs \<and>
     filter is_teardown evs
       = map (\<lambda>s. EvLisClose (the (lis s))) (takeWhile (\<lambda>s. lis s \<noteq> None) (servers cont)) \<and>
     (\<forall>x. EvLog ErrorLevel ''serve failed'' x \<notin> set evs)"
proof -
  let ?c0 = "cont\<lparr>doneChan := ChanClosed\<rparr>"
  let ?r = "close_loop env 0 (servers cont) ?c0 (emit EvCloseDone w)"
  have eq: "rw (closeListeners env cont w) = rw ?r"
    using assms by (simp add: closeListeners_def split: result.splits)
  from close_loop_closes [of env 0 "servers cont" ?c0 "emit EvCloseDone w"]
  obtain evs where evs: "trace (rw ?r) = trace (emit EvCloseDone w) @ evs"
    "filter is_teardown evs
       = map (\<lambda>s. EvLisClose (the (lis s))) (takeWhile (\<lambda>s. lis s \<noteq> None) (servers cont))"
    by blast
  from closeListeners_grows [OF assms, of w env, unfolded grows_def]
  obtain ys where ys: "trace (rw (closeListeners env cont w)) = trace (emit EvCloseDone w) @ ys"
    and ysP: "list_all (\<lambda>e. (\<exists>l. e = EvLisClose l)
        \<or> (\<exists>x. e = EvLog ErrorLevel ''close listener failed'' x)) ys"
    by blast
  from ys evs(1) eq have same: "ys = evs" by simp
  from ysP have quiet: "\<forall>x. EvLog ErrorLevel ''serve failed'' x \<notin> set ys"
    by (induction ys) auto
  from evs(1) eq have "trace (rw (closeListeners env cont w)) = trace w @ EvCloseDone # evs"
    by simp
  with evs(2) quiet same show ?thesis by blast
qed

text \<open>
  C4. In \<open>stop\<close>, in \<open>gracefulStop\<close>, in \<open>closeListeners\<close> and in the handling
  of any one signal, every event that takes a listener down (a listener's
  \<open>Close\<close>, a server's \<open>Stop\<close> or \<open>GracefulStop\<close>) comes strictly after the close
  of the done channel within the same transition; this holds in every state,
  also where \<open>close\<close> panics and nothing is taken down. On a live done channel
  the close of the done channel is the first event, followed by the \<open>Stop\<close>
  (\<open>GracefulStop\<close>) calls on the servers in registration order up to the first
  failure, respectively by the \<open>Close\<close> of every installed listener in
  registration order; the accept loops that end during \<open>closeListeners\<close> log no
  serve failure. Once one of the three operations has returned, the done channel
  is closed. An accept loop that ends with an error while the done channel is
  closed logs nothing, and logs the error otherwise.
\<close>

theorem done_signalled_before_close:
  "(\<exists>evs. trace (rw (stop env cont w)) = trace w @ evs \<and> closes_after_done False evs)
   \<and> (\<exists>evs. trace (rw (gracefulStop env cont w)) = trace w @ evs \<and> closes_after_done False evs)
   \<and> (\<exists>evs. trace (rw (closeListeners env cont w)) = trace w @ evs \<and> closes_after_done False evs)
   \<and> (\<exists>evs. trace (ow (handle env sig cont w)) = trace w @ evs \<and> closes_after_done False evs)
   \<and> (doneChan cont = ChanOpen \<longrightarrow>
        (\<exists>k. (servers cont = [] \<or> 0 < k) \<and>
           trace (rw (stop env cont w))
             = trace w @ EvCloseDone # map (\<lambda>s. EvStop (srv s)) (take k (servers cont))))
   \<and> (doneChan cont = ChanOpen \<longrightarrow>
        (\<exists>k. (servers cont = [] \<or> 0 < k) \<and>
           trace (rw (gracefulStop env cont w))
             = trace w @ EvCloseDone # map (\<lambda>s. EvGracefulStop (srv s)) (take k (servers cont))))
   \<and> (doneChan cont = ChanOpen \<longrightarrow>
        (\<exists>evs. trace (rw (closeListeners env cont w)) = trace w @ EvCloseDone # evs \<and>
           filter is_teardown evs
             = map (\<lambda>s. EvLisClose (the (lis s)))
                 (takeWhile (\<lambda>s. lis s \<noteq> None) (servers cont)) \<and>
           (\<forall>x. EvLog ErrorLevel ''serve failed'' x \<notin> set evs)))
   \<and> (is_Ok (stop env cont w) \<longrightarrow> doneChan (rc (stop env cont w)) = ChanClosed)
   \<and> (is_Ok (gracefulStop env cont w) \<longrightarrow> doneChan (rc (gracefulStop env cont w)) = ChanClosed)
   \<and> (is_Ok (closeListeners env cont w) \<longrightarrow> doneChan (rc (closeListeners env cont w)) = ChanClosed)
   \<and> (doneChan cont = ChanClosed \<longrightarrow> snd (accept_loop_exit i (Some err) cont w) = w)
   \<and> (doneChan cont \<noteq> ChanClosed \<longrightarrow>
        snd (accept_loop_exit i (Some err) cont w) = logmsg ErrorLevel ''serve failed'' (Some err) w)"
proof (intro conjI)
  show "\<exists>evs. trace (rw (stop env cont w)) = trace w @ evs \<and> closes_after_done False evs"
    by (rule stop_shape [THEN conjunct1])
  show "\<exists>evs. trace (rw (gracefulStop env cont w)) = trace w @ evs \<and> closes_after_done False evs"
    by (rule gracefulStop_shape [THEN conjunct1])
  show "\<exists>evs. trace (rw (closeListeners env cont w)) = trace w @ evs \<and> closes_after_done False evs"
    using closeListeners_shape [of env cont w False, THEN conjunct1] by blast
  show "\<exists>evs. trace (ow (handle env sig cont w)) = trace w @ evs \<and> closes_after_done False evs"
    by (rule handle_shape)
  show "doneChan cont = ChanOpen \<longrightarrow>
        (\<exists>k. (servers cont = [] \<or> 0 < k) \<and>
           trace (rw (stop env cont w))
             = trace w @ EvCloseDone # map (\<lambda>s. EvStop (srv s)) (take k (servers cont)))"
    by (intro impI) (rule stop_live)
  show "doneChan cont = ChanOpen \<longrightarrow>
        (\<exists>k. (servers cont = [] \<or> 0 < k) \<and>
           trace (rw (gracefulStop env cont w))
             = trace w @ EvCloseDone # map (\<lambda>s. EvGracefulStop (srv s)) (take k (servers cont)))"
    by (intro impI) (rule gracefulStop_live)
  show "doneChan cont = ChanOpen \<longrightarrow>
        (\<exists>evs. trace (rw (closeListeners env cont w)) = trace w @ EvCloseDone # evs \<and>
           filter is_teardown evs
             = map (\<lambda>s. EvLisClose (the (lis s)))
                 (takeWhile (\<lambda>s. lis s \<noteq> None) (servers cont)) \<and>
           (\<forall>x. EvLog ErrorLevel ''serve failed'' x \<notin> set evs))"
    by (intro impI) (rule closeListeners_live)
  show "is_Ok (stop env cont w) \<longrightarrow> doneChan (rc (stop env cont w)) = ChanClosed"
    by (rule stop_shape [of env cont w False, THEN conjunct2])
  show "is_Ok (gracefulStop env cont w) \<longrightarrow> doneChan (rc (gracefulStop env cont w)) = ChanClosed"
    by (rule gracefulStop_shape [of env cont w False, THEN conjunct2])
  show "is_Ok (closeListeners env cont w) \<longrightarrow> doneChan (rc (closeListeners env cont w)) = ChanClosed"
    by (rule closeListeners_shape [of env cont w False, THEN conjunct2])
  show "doneChan cont = ChanClosed \<longrightarrow> snd (accept_loop_exit i (Some err) cont w) = w"
    by (simp add: accept_loop_exit_def Let_def)
  show "doneChan cont \<noteq> ChanClosed \<longrightarrow>
        snd (accept_loop_exit i (Some err) cont w) = logmsg ErrorLevel ''serve failed'' (Some err) w"
    by (simp add: accept_loop_exit_def Let_def)
qed

theorem done_signalled_before_close_witness:
  "doneChan cont_running = ChanOpen
   \<and> is_Ok (closeListeners env_ok cont_running world_empty)
   \<and> trace (rw (closeListeners env_ok cont_running world_empty))
       = [EvCloseDone, EvLisClose 100, EvLisClose 101]
   \<and> closes_after_done False [EvCloseDone, EvLisClose 100, EvLisClose 101]
   \<and> doneChan (rc (closeListeners env_ok cont_running world_empty)) = ChanClosed
   \<and> snd (accept_loop_exit 0 (Some ''use of closed network connection'')
            (rc (closeListeners env_ok cont_running world_empty)) world_empty) = world_empty
   \<and> snd (accept_loop_exit 0 (Some ''accept failed'') cont_running world_empty)
       = logmsg ErrorLevel ''serve failed'' (Some ''accept failed'') world_empty
   \<and> (\<exists>k. 0 < k \<and> trace (rw (stop env_ok cont_running world_empty))
         = EvCloseDone # map (\<lambda>s. EvStop (srv s)) (take k (servers cont_running)))"
proof -
  let ?r = "closeListeners env_ok cont_running world_empty"
  have live: "doneChan cont_running = ChanOpen"
    by (simp add: cont_running_def cont_new_def)
  have ok: "is_Ok ?r"
    by (simp add: closeListeners_def accept_loop_exit_def Let_def env_ok_def cont_running_def
        cont_new_def world_empty_def)
  have tr: "trace (rw ?r) = [EvCloseDone, EvLisClose 100, EvLisClose 101]"
    by (simp add: closeListeners_def accept_loop_exit_def Let_def env_ok_def cont_running_def
        cont_new_def world_empty_def)
  note t = done_signalled_before_close
    [of env_ok cont_running world_empty SIGUSR1 0 "''accept failed''"]
  from t obtain evs where evs: "trace (rw ?r) = trace world_empty @ evs" "closes_after_done False evs"
    by blast
  from evs(1) tr have "evs = [EvCloseDone, EvLisClose 100, EvLisClose 101]"
    by (simp add: world_empty_def)
  with evs(2) have order: "closes_after_done False [EvCloseDone, EvLisClose 100, EvLisClose 101]"
    by simp
  from t ok have closed: "doneChan (rc ?r) = ChanClosed" by blast
  from t live have loud: "snd (accept_loop_exit 0 (Some ''accept failed'') cont_running world_empty)
       = logmsg ErrorLevel ''serve failed'' (Some ''accept failed'') world_empty"
    by simp
  from t live obtain k where k: "servers cont_running = [] \<or> 0 < k"
    "trace (rw (stop env_ok cont_running world_empty))
       = trace world_empty @ EvCloseDone # map (\<lambda>s. EvStop (srv s)) (take k (servers cont_running))"
    by blast
  have ne: "servers cont_running \<noteq> []" by (simp add: cont_running_def cont_new_def)
  from k ne have stops: "\<exists>k. 0 < k \<and> trace (rw (stop env_ok cont_running world_empty))
         = EvCloseDone # map (\<lambda>s. EvStop (srv s)) (take k (servers cont_running))"
    by (intro exI [of _ k]) (simp add: world_empty_def)
  note t2 = done_signalled_before_close
    [of env_ok "rc ?r" world_empty SIGUSR1 0 "''use of closed network connection''"]
  from t2 closed have quiet: "snd (accept_loop_exit 0 (Some ''use of closed network connection'')
      (rc ?r) world_empty) = world_empty"
    by blast
  from live ok tr order closed quiet loud stops show ?thesis by blast
qed

end
